theory Spec2Isabelle
  imports Complex_Main "HOL-Library.Multiset" "HOL-Library.Sublist"
begin

section \<open>Data model\<close>

text \<open>
  The interface \<^verbatim>\<open>ImageResult\<close> of \<^verbatim>\<open>route.ts\<close> and \<^verbatim>\<open>page.tsx\<close>. Optional fields are
  options. The field \<^verbatim>\<open>id\<close> is called \<open>img_id\<close> here, since \<open>id\<close> is the identity
  function of HOL. Every adapter fills \<^verbatim>\<open>year\<close> from \<^verbatim>\<open>parseInt\<close>, so a year is an
  integer; the value NaN that \<^verbatim>\<open>parseInt\<close> may give is serialised as \<^verbatim>\<open>null\<close> by the
  JSON response and reaches the timeline as an absent year.

  The type of \<^verbatim>\<open>url\<close> is a parameter of the record. The interface declares it a
  string, and \<open>ImageResult\<close> is the record with a string there. At run time the field
  holds what the adapter stored: \<^verbatim>\<open>scrapeBingImages\<close> stores \<^verbatim>\<open>data.murl\<close> of a
  \<^verbatim>\<open>JSON.parse\<close>, of type \<^verbatim>\<open>any\<close>, after testing only that it is not false, so in a
  \<open>RuntimeImage\<close> the url is any JavaScript value. The other fields are only copied by
  the route, never read, so their declared types are kept.
\<close>

datatype js_value =
  JString string
| JNumber real
| JBoolean bool
| JNull
| JUndefined
| JArray "js_value list"
| JObject "(string \<times> js_value) list"

record 'u ImageRecord =
  img_id :: string
  url :: 'u
  thumbnail :: string
  title :: string
  source :: string
  sourceUrl :: string
  width :: "int option"
  height :: "int option"
  year :: "int option"
  date :: "string option"
  isHistorical :: "bool option"

type_synonym ImageResult = "string ImageRecord"

type_synonym RuntimeImage = "js_value ImageRecord"

text \<open>The record \<open>img\<close> with the value \<open>v\<close> for its url.\<close>

definition with_url :: "'v \<Rightarrow> 'u ImageRecord \<Rightarrow> 'v ImageRecord" where
  "with_url v img =
     \<lparr>img_id = img_id img, url = v, thumbnail = thumbnail img, title = title img,
      source = source img, sourceUrl = sourceUrl img, width = width img, height = height img,
      year = year img, date = date img, isHistorical = isHistorical img\<rparr>"

definition is_string :: "js_value \<Rightarrow> bool" where
  "is_string v = (case v of JString u \<Rightarrow> True | _ \<Rightarrow> False)"

text \<open>
  A record of the declared type as a run-time record, and a run-time record whose url is a
  string as a record of the declared type.
\<close>

definition runtime :: "ImageResult \<Rightarrow> RuntimeImage" where
  "runtime img = with_url (JString (url img)) img"

definition typed :: "RuntimeImage \<Rightarrow> ImageResult" where
  "typed img = with_url (case url img of JString u \<Rightarrow> u | _ \<Rightarrow> []) img"

text \<open>What a \<^verbatim>\<open>try\<close> block may catch: an error of the network or a parser, or a TypeError.\<close>

datatype exn = Exn string | TypeError

section \<open>Removing duplicates (route.ts, GET)\<close>

text \<open>
  \<^verbatim>\<open>img.url.split('?')[0]\<close>: the part of the url before its first question mark, the
  whole url when it has none.
\<close>

definition split_query :: "string \<Rightarrow> string" where
  "split_query u = takeWhile (\<lambda>c. c \<noteq> CHR ''?'') u"

definition key :: "ImageResult \<Rightarrow> string" where
  "key img = split_query (url img)"

text \<open>
  The callback of \<^verbatim>\<open>allImages.filter\<close>, with the set \<^verbatim>\<open>seen\<close> it updates passed along:
  \<^verbatim>\<open>
    const seen = new Set<string>();
    const uniqueImages = allImages.filter(img => {
      const key = img.url.split('?')[0];
      if (seen.has(key)) return false;
      seen.add(key);
      return true;
    });
  \<close>
\<close>

fun filter_seen :: "string set \<Rightarrow> ImageResult list \<Rightarrow> ImageResult list" where
  "filter_seen seen [] = []"
| "filter_seen seen (img # rest) =
     (if key img \<in> seen then filter_seen seen rest
      else img # filter_seen (insert (key img) seen) rest)"

definition uniqueImages :: "ImageResult list \<Rightarrow> ImageResult list" where
  "uniqueImages allImages = filter_seen {} allImages"

text \<open>
  The same callback on the records as they are at run time. \<^verbatim>\<open>img.url.split\<close> is a
  function only when the url is a string; on any other value the call throws a TypeError,
  which ends the filter. A record that is kept has a string url, so the list that is
  returned has the declared type.
\<close>

fun filter_seen_run :: "string set \<Rightarrow> RuntimeImage list \<Rightarrow> exn + ImageResult list" where
  "filter_seen_run seen [] = Inr []"
| "filter_seen_run seen (img # rest) =
     (case url img of
        JString u \<Rightarrow>
          (let key = split_query u
           in if key \<in> seen then filter_seen_run seen rest
              else (case filter_seen_run (insert key seen) rest of
                      Inl error \<Rightarrow> Inl error
                    | Inr kept \<Rightarrow> Inr (with_url u img # kept)))
      | _ \<Rightarrow> Inl TypeError)"

definition uniqueImages_run :: "RuntimeImage list \<Rightarrow> exn + ImageResult list" where
  "uniqueImages_run allImages = filter_seen_run {} allImages"

text \<open>The two records of the specification's second scenario.\<close>

definition mk_image :: "string \<Rightarrow> string \<Rightarrow> string \<Rightarrow> int option \<Rightarrow> ImageResult" where
  "mk_image i u s y =
     \<lparr>img_id = i, url = u, thumbnail = u, title = ''t'', source = s, sourceUrl = u,
      width = None, height = None, year = y, date = None, isHistorical = None\<rparr>"

definition img_loc :: ImageResult where
  "img_loc = mk_image ''loc-0'' ''https://x.com/img.jpg?w=100'' ''loc'' None"

definition img_google :: ImageResult where
  "img_google = mk_image ''google-0'' ''https://x.com/img.jpg?w=200'' ''google'' None"

section \<open>Array.prototype.sort\<close>

text \<open>
  \<^verbatim>\<open>Array.prototype.sort\<close> with a comparison function is stable: elements that compare
  equal keep their input order. It is modelled by insertion from the right end; an
  element goes before the first element of the sorted rest that it does not compare
  greater than. For a consistent comparison function every stable sort gives this list.
\<close>

fun insort_cmp :: "('a \<Rightarrow> 'a \<Rightarrow> int) \<Rightarrow> 'a \<Rightarrow> 'a list \<Rightarrow> 'a list" where
  "insort_cmp cmp x [] = [x]"
| "insort_cmp cmp x (y # ys) =
     (if cmp x y \<le> 0 then x # y # ys else y # insort_cmp cmp x ys)"

definition sort_cmp :: "('a \<Rightarrow> 'a \<Rightarrow> int) \<Rightarrow> 'a list \<Rightarrow> 'a list" where
  "sort_cmp cmp xs = foldr (insort_cmp cmp) xs []"

text \<open>
  The comparison function of the shuffle, \<^verbatim>\<open>() => Math.random() - 0.5\<close>, ignores its
  arguments and is not consistent. The values of \<^verbatim>\<open>Math.random()\<close> are a parameter: \<open>rnd k\<close>
  is the value of call number \<open>k\<close>, and the sort passes on the number of calls it has made.
  The sort is the same insertion sort, asking the comparison function once for each
  comparison.
\<close>

fun insort_random :: "(nat \<Rightarrow> real) \<Rightarrow> 'a \<Rightarrow> 'a list \<Rightarrow> nat \<Rightarrow> 'a list \<times> nat" where
  "insort_random rnd x [] k = ([x], k)"
| "insort_random rnd x (y # ys) k =
     (if rnd k - 0.5 \<le> 0 then (x # y # ys, Suc k)
      else (case insort_random rnd x ys (Suc k) of (zs, k') \<Rightarrow> (y # zs, k')))"

fun sort_random :: "(nat \<Rightarrow> real) \<Rightarrow> 'a list \<Rightarrow> nat \<Rightarrow> 'a list \<times> nat" where
  "sort_random rnd [] k = ([], k)"
| "sort_random rnd (x # xs) k =
     (case sort_random rnd xs k of (ys, k') \<Rightarrow> insort_random rnd x ys k')"

text \<open>\<^verbatim>\<open>const shuffled = uniqueImages.sort(() => Math.random() - 0.5);\<close>\<close>

definition shuffled :: "(nat \<Rightarrow> real) \<Rightarrow> ImageResult list \<Rightarrow> ImageResult list" where
  "shuffled rnd unique = fst (sort_random rnd unique 0)"

section \<open>The search route (route.ts, GET)\<close>

text \<open>
  Every adapter (\<^verbatim>\<open>scrapeGoogleImages\<close>, \<^verbatim>\<open>scrapeBingImages\<close>, ...) is one \<^verbatim>\<open>try\<close> block,
  which fetches and parses, and a \<^verbatim>\<open>catch\<close> that returns the empty list. What the
  \<^verbatim>\<open>try\<close> block does depends on the network, so it is a parameter: \<open>w s q\<close> is the list
  the block of adapter \<open>s\<close> returns for the query \<open>q\<close>, or the exception it throws.
\<close>

type_synonym world = "string \<Rightarrow> string \<Rightarrow> exn + RuntimeImage list"

text \<open>The settled promise of an adapter call: \<open>Inr\<close> fulfilled, \<open>Inl\<close> rejected.\<close>

definition scrape :: "world \<Rightarrow> string \<Rightarrow> string \<Rightarrow> exn + RuntimeImage list" where
  "scrape w s query = (case w s query of Inl error \<Rightarrow> Inr [] | Inr images \<Rightarrow> Inr images)"

text \<open>
  \<^verbatim>\<open>Promise.all\<close>: the values in the order of the promises, or the first rejection.
\<close>

fun promise_all :: "(exn + 'a) list \<Rightarrow> exn + 'a list" where
  "promise_all [] = Inr []"
| "promise_all (Inl e # ps) = Inl e"
| "promise_all (Inr v # ps) = (case promise_all ps of Inl e \<Rightarrow> Inl e | Inr vs \<Rightarrow> Inr (v # vs))"

text \<open>\<^verbatim>\<open>sourcesParam.split(',')\<close>\<close>

fun split_on :: "char \<Rightarrow> string \<Rightarrow> string list" where
  "split_on c [] = [[]]"
| "split_on c (x # xs) =
     (if x = c then [] # split_on c xs
      else (case split_on c xs of [] \<Rightarrow> [[x]] | w # ws \<Rightarrow> (x # w) # ws))"

text \<open>
  \<^verbatim>\<open>searchParams.get('sources') || 'google,bing,flickr,unsplash,loc,wikimedia,archive'\<close>:
  the default replaces a missing parameter and an empty one.
\<close>

definition sourcesParam :: "string option \<Rightarrow> string" where
  "sourcesParam p =
     (case p of
        None \<Rightarrow> ''google,bing,flickr,unsplash,loc,wikimedia,archive''
      | Some s \<Rightarrow> if s = [] then ''google,bing,flickr,unsplash,loc,wikimedia,archive'' else s)"

text \<open>
  The adapters in the order of the eleven tests \<^verbatim>\<open>if (sources.includes(...))\<close>, and the
  ones whose test succeeds: the calls that GET queues, in this order.
\<close>

definition known_sources :: "string list" where
  "known_sources =
     [''google'', ''bing'', ''flickr'', ''unsplash'', ''zillow'', ''redfin'', ''loc'',
      ''wikimedia'', ''archive'', ''nypl'', ''maps'']"

definition queued :: "string option \<Rightarrow> string list" where
  "queued p =
     (let sources = split_on CHR '','' (sourcesParam p)
      in filter (\<lambda>s. s \<in> set sources) known_sources)"

text \<open>\<^verbatim>\<open>[...new Set(xs)]\<close>: the distinct elements in the order of their first occurrence.\<close>

definition set_order :: "'a list \<Rightarrow> 'a list" where
  "set_order xs = foldl (\<lambda>acc x. if x \<in> set acc then acc else acc @ [x]) [] xs"

datatype http_error = Status400 string | Status500 string

record response =
  resp_images :: "ImageResult list"
  resp_count :: nat
  resp_sources :: "string list"

text \<open>
  The handler. \<open>location\<close> and \<open>sources\<close> are the two query parameters, \<open>None\<close> when
  absent. The result is the list of adapters called together with the reply. The
  \<^verbatim>\<open>try\<close> block of the handler holds \<^verbatim>\<open>Promise.all\<close>, the duplicate filter, the shuffle
  and the response; whatever is thrown there is answered with status 500.
\<close>

definition GET ::
  "(nat \<Rightarrow> real) \<Rightarrow> world \<Rightarrow> string option \<Rightarrow> string option
     \<Rightarrow> string list \<times> (http_error + response)" where
  "GET rnd w location sources =
     (case location of
        None \<Rightarrow> ([], Inl (Status400 ''Location is required''))
      | Some loc \<Rightarrow>
          if loc = [] then ([], Inl (Status400 ''Location is required''))
          else
            let called = queued sources;
                searchPromises = map (\<lambda>s. scrape w s loc) called
            in (called,
                case promise_all searchPromises of
                  Inl error \<Rightarrow> Inl (Status500 ''Search failed'')
                | Inr results \<Rightarrow>
                    let allImages = concat results
                    in (case uniqueImages_run allImages of
                          Inl error \<Rightarrow> Inl (Status500 ''Search failed'')
                        | Inr unique \<Rightarrow>
                            let sh = shuffled rnd unique
                            in Inr \<lparr>resp_images = sh, resp_count = length sh,
                                    resp_sources = set_order (map source sh)\<rparr>)))"

text \<open>The world of the specification's first scenario: google gives two records, bing throws.\<close>

definition world1 :: world where
  "world1 s q =
     (if s = ''google'' then
        Inr [runtime (mk_image ''google-0'' ''https://a.com/1.jpg'' ''google'' None),
             runtime (mk_image ''google-1'' ''https://a.com/2.jpg'' ''google'' None)]
      else Inl (Exn ''fetch failed''))"

text \<open>
  A world in which the page of Bing holds one link, with the attribute
  \<^verbatim>\<open>m='{"murl":123,"turl":"https://b.com/t.jpg","t":"t","purl":"https://b.com/t.jpg"}'\<close>:
  \<^verbatim>\<open>data.murl\<close> is not false, so \<^verbatim>\<open>scrapeBingImages\<close> returns one record, whose url is
  the number 123. Every other adapter throws.
\<close>

definition world_murl :: world where
  "world_murl s q =
     (if s = ''bing'' then
        Inr [with_url (JNumber 123) (mk_image ''bing-0'' ''https://b.com/t.jpg'' ''bing'' None)]
      else Inl (Exn ''fetch failed''))"

text \<open>
  A world in which the page of Unsplash has no image with a \<^verbatim>\<open>srcset\<close>, so that
  \<^verbatim>\<open>scrapeUnsplash\<close> returns its eight fallback records for the query \<^verbatim>\<open>Paris\<close>, whose
  urls differ after the question mark only. Every other adapter throws.
\<close>

definition unsplash_fallback :: "ImageResult list" where
  "unsplash_fallback =
     map (\<lambda>i. mk_image (''unsplash-'' @ i)
                (''https://source.unsplash.com/800x600/?Paris&sig='' @ i) ''unsplash'' None)
       [''0'', ''1'', ''2'', ''3'', ''4'', ''5'', ''6'', ''7'']"

definition world_unsplash :: world where
  "world_unsplash s q =
     (if s = ''unsplash'' then Inr (map runtime unsplash_fallback)
      else Inl (Exn ''fetch failed''))"

text \<open>What the call of adapter \<open>s\<close> contributes to \<^verbatim>\<open>results\<close>.\<close>

definition records_of :: "world \<Rightarrow> string \<Rightarrow> string \<Rightarrow> RuntimeImage list" where
  "records_of w q s = (case w s q of Inl e \<Rightarrow> [] | Inr images \<Rightarrow> images)"

section \<open>The timeline (Timeline.tsx, periods)\<close>

text \<open>
  The table \<^verbatim>\<open>periodDefs\<close>; \<open>now\<close> is \<^verbatim>\<open>new Date().getFullYear()\<close>, a parameter.
\<close>

record periodDef =
  plabel :: string
  pstart :: int
  pend :: int

definition periodDefs :: "int \<Rightarrow> periodDef list" where
  "periodDefs now =
     [\<lparr>plabel = ''2020s'', pstart = 2020, pend = now\<rparr>,
      \<lparr>plabel = ''2010s'', pstart = 2010, pend = 2019\<rparr>,
      \<lparr>plabel = ''2000s'', pstart = 2000, pend = 2009\<rparr>,
      \<lparr>plabel = ''1990s'', pstart = 1990, pend = 1999\<rparr>,
      \<lparr>plabel = ''1980s'', pstart = 1980, pend = 1989\<rparr>,
      \<lparr>plabel = ''1970s'', pstart = 1970, pend = 1979\<rparr>,
      \<lparr>plabel = ''1960s'', pstart = 1960, pend = 1969\<rparr>,
      \<lparr>plabel = ''1950s'', pstart = 1950, pend = 1959\<rparr>,
      \<lparr>plabel = ''1940s'', pstart = 1940, pend = 1949\<rparr>,
      \<lparr>plabel = ''1930s'', pstart = 1930, pend = 1939\<rparr>,
      \<lparr>plabel = ''1920s'', pstart = 1920, pend = 1929\<rparr>,
      \<lparr>plabel = ''1910s'', pstart = 1910, pend = 1919\<rparr>,
      \<lparr>plabel = ''1900s'', pstart = 1900, pend = 1909\<rparr>,
      \<lparr>plabel = ''1800s'', pstart = 1800, pend = 1899\<rparr>,
      \<lparr>plabel = ''Earlier'', pstart = 0, pend = 1799\<rparr>]"

record TimelinePeriod =
  label :: string
  startYear :: int
  endYear :: int
  images :: "ImageResult list"

text \<open>
  \<^verbatim>\<open>!img.year\<close>: true when the year is absent and when it is the number 0, the one
  integer that JavaScript takes for false.
\<close>

definition no_year :: "ImageResult \<Rightarrow> bool" where
  "no_year img = (case year img of None \<Rightarrow> True | Some y \<Rightarrow> y = 0)"

text \<open>\<^verbatim>\<open>img.year!\<close>, read only where \<^verbatim>\<open>!img.year\<close> is false.\<close>

definition the_year :: "ImageResult \<Rightarrow> int" where
  "the_year img = (case year img of None \<Rightarrow> 0 | Some y \<Rightarrow> y)"

text \<open>
  The comparison function of the first sort:
  \<^verbatim>\<open>
    if (!a.year && !b.year) return 0;
    if (!a.year) return 1;
    if (!b.year) return -1;
    return b.year - a.year;
  \<close>
\<close>

definition by_year :: "ImageResult \<Rightarrow> ImageResult \<Rightarrow> int" where
  "by_year a b =
     (if no_year a \<and> no_year b then 0
      else if no_year a then 1
      else if no_year b then - 1
      else the_year b - the_year a)"

text \<open>\<^verbatim>\<open>periodDefs.find(p => img.year! >= p.start && img.year! <= p.end)\<close>\<close>

definition find_period :: "int \<Rightarrow> int \<Rightarrow> periodDef option" where
  "find_period now y = List.find (\<lambda>p. y \<ge> pstart p \<and> y \<le> pend p) (periodDefs now)"

text \<open>
  The body of \<^verbatim>\<open>if (period) { ... }\<close>: the image is appended to the first period of
  \<^verbatim>\<open>result\<close> with the label of \<^verbatim>\<open>period\<close>; when there is none, a new period with this
  image alone is pushed at the end.
\<close>

fun push_image :: "periodDef \<Rightarrow> ImageResult \<Rightarrow> TimelinePeriod list \<Rightarrow> TimelinePeriod list" where
  "push_image period img [] =
     [\<lparr>label = plabel period, startYear = pstart period, endYear = pend period,
       images = [img]\<rparr>]"
| "push_image period img (r # result) =
     (if label r = plabel period then r\<lparr>images := images r @ [img]\<rparr> # result
      else r # push_image period img result)"

text \<open>
  One turn of the loop \<^verbatim>\<open>for (const img of sortedImages)\<close> on the pair of \<^verbatim>\<open>result\<close>
  and \<^verbatim>\<open>undated\<close>. An image whose year is in no range of the table is skipped.
\<close>

fun group_step ::
  "int \<Rightarrow> TimelinePeriod list \<times> ImageResult list \<Rightarrow> ImageResult
     \<Rightarrow> TimelinePeriod list \<times> ImageResult list" where
  "group_step now (result, undated) img =
     (if no_year img then (result, undated @ [img])
      else (case find_period now (the_year img) of
              None \<Rightarrow> (result, undated)
            | Some period \<Rightarrow> (push_image period img result, undated)))"

text \<open>The comparison function of the last sort, \<^verbatim>\<open>(a, b) => b.startYear - a.startYear\<close>.\<close>

definition by_startYear :: "TimelinePeriod \<Rightarrow> TimelinePeriod \<Rightarrow> int" where
  "by_startYear a b = startYear b - startYear a"

definition unknown_date :: "int \<Rightarrow> ImageResult list \<Rightarrow> TimelinePeriod" where
  "unknown_date now undated =
     \<lparr>label = ''Modern / Unknown Date'', startYear = now, endYear = now, images = undated\<rparr>"

text \<open>The value of \<^verbatim>\<open>periods\<close>, for the current year and the images of the page.\<close>

definition periods :: "int \<Rightarrow> ImageResult list \<Rightarrow> TimelinePeriod list" where
  "periods now imgs =
     (let sortedImages = sort_cmp by_year imgs;
          (result, undated) = foldl (group_step now) ([], []) sortedImages;
          result' = (if undated \<noteq> [] then result @ [unknown_date now undated] else result)
      in sort_cmp by_startYear result')"

text \<open>An image that has only a year, for the scenarios.\<close>

definition img_of_year :: "int option \<Rightarrow> ImageResult" where
  "img_of_year y = mk_image ''i'' ''https://a.com/i.jpg'' ''archive'' y"


section \<open>Auxiliary definitions\<close>

text \<open>
  The entry of the table that a period of the output was made from, and what the loop
  keeps true of every dated period: it comes from the table, it is not empty, and each of
  its images has a year, for which the table lookup finds this period.
\<close>

definition def_of :: "TimelinePeriod \<Rightarrow> periodDef" where
  "def_of p = \<lparr>plabel = label p, pstart = startYear p, pend = endYear p\<rparr>"

definition dated_ok :: "int \<Rightarrow> TimelinePeriod \<Rightarrow> bool" where
  "dated_ok now p \<longleftrightarrow>
     def_of p \<in> set (periodDefs now) \<and> images p \<noteq> [] \<and>
     (\<forall>r\<in>set (images p). \<not> no_year r \<and> find_period now (the_year r) = Some (def_of p))"

text \<open>Each range of the list starts one year after the range that follows it ends.\<close>

fun chained :: "periodDef list \<Rightarrow> bool" where
  "chained (d # d' # ds) \<longleftrightarrow> pend d' + 1 = pstart d \<and> chained (d' # ds)"
| "chained ds \<longleftrightarrow> True"

text \<open>The array \<^verbatim>\<open>result\<close> when the last sort starts.\<close>

definition before_sort :: "int \<Rightarrow> ImageResult list \<Rightarrow> TimelinePeriod list" where
  "before_sort now imgs =
     fst (foldl (group_step now) ([], []) (sort_cmp by_year imgs)) @
     (if filter no_year imgs \<noteq> [] then [unknown_date now (filter no_year imgs)] else [])"

section \<open>Properties of the duplicate filter\<close>

lemma filter_seen_keys:
  "key ` set (filter_seen seen xs) = key ` set xs - seen"
  by (induction xs arbitrary: seen) auto

lemma filter_seen_distinct:
  "distinct (map key (filter_seen seen xs))"
proof (induction xs arbitrary: seen)
  case Nil
  show ?case by simp
next
  case (Cons x xs)
  have "key x \<notin> key ` set (filter_seen (insert (key x) seen) xs)"
    by (simp add: filter_seen_keys)
  with Cons show ?case by simp
qed

lemma filter_seen_again:
  "seen' \<subseteq> seen \<Longrightarrow> filter_seen seen' (filter_seen seen xs) = filter_seen seen xs"
proof (induction xs arbitrary: seen seen')
  case Nil
  show ?case by simp
next
  case (Cons x xs)
  show ?case
  proof (cases "key x \<in> seen")
    case True
    with Cons show ?thesis by simp
  next
    case False
    with Cons.prems have "key x \<notin> seen'" by blast
    moreover have "insert (key x) seen' \<subseteq> insert (key x) seen"
      using Cons.prems by blast
    ultimately show ?thesis using False Cons.IH by simp
  qed
qed

lemma filter_seen_snoc:
  "filter_seen seen (xs @ [r]) =
     filter_seen seen xs @ (if key r \<in> seen \<union> key ` set xs then [] else [r])"
  by (induction xs arbitrary: seen) auto

lemma filter_seen_subseq: "subseq (filter_seen seen xs) xs"
  by (induction xs arbitrary: seen) auto

lemma filter_seen_nth:
  "filter_seen seen xs =
     map (\<lambda>i. xs ! i)
       (filter (\<lambda>i. key (xs ! i) \<notin> seen \<and> (\<forall>j<i. key (xs ! j) \<noteq> key (xs ! i)))
          [0..<length xs])"
proof (induction xs rule: rev_induct)
  case Nil
  show ?case by simp
next
  case (snoc r xs)
  let ?P = "\<lambda>ys i. key (ys ! i) \<notin> seen \<and> (\<forall>j<i. key (ys ! j) \<noteq> key (ys ! i))"
  have same: "filter (?P (xs @ [r])) [0..<length xs] = filter (?P xs) [0..<length xs]"
    by (rule filter_cong) (auto simp: nth_append)
  have maps: "map (\<lambda>i. (xs @ [r]) ! i) (filter (?P xs) [0..<length xs])
                = map (\<lambda>i. xs ! i) (filter (?P xs) [0..<length xs])"
    by (rule map_cong) (auto simp: nth_append)
  have "(\<forall>j<length xs. key (xs ! j) \<noteq> key r) \<longleftrightarrow> key r \<notin> key ` set xs"
    by (metis (no_types, lifting) image_iff in_set_conv_nth)
  then have last: "?P (xs @ [r]) (length xs) \<longleftrightarrow> \<not> key r \<in> seen \<union> key ` set xs"
    by (simp add: nth_append)
  show ?case
    using snoc.IH same maps last by (simp add: filter_seen_snoc)
qed

lemma filter_seen_map:
  "(\<And>r. key (g r) = key r) \<Longrightarrow> filter_seen seen (map g xs) = map g (filter_seen seen xs)"
  by (induction xs arbitrary: seen) auto

lemma filter_seen_set: "set (filter_seen seen xs) \<subseteq> set xs"
  by (induction xs arbitrary: seen) auto

lemma filter_seen_id:
  "distinct (map key xs) \<Longrightarrow> key ` set xs \<inter> seen = {} \<Longrightarrow> filter_seen seen xs = xs"
  by (induction xs arbitrary: seen) auto

subsection \<open>The filter at run time\<close>

lemma key_with_url: "key (with_url u img) = split_query u"
  by (simp add: key_def with_url_def)

lemma source_with_url: "source (with_url u img) = source img"
  by (simp add: with_url_def)

lemma typed_runtime: "typed (runtime img) = img"
  by (cases img) (simp add: typed_def runtime_def with_url_def)

lemma is_string_runtime: "is_string (url (runtime img))"
  by (simp add: is_string_def runtime_def with_url_def)

lemma filter_seen_run_strings:
  "\<forall>img\<in>set xs. is_string (url img) \<Longrightarrow>
     filter_seen_run seen xs = Inr (filter_seen seen (map typed xs))"
proof (induction xs arbitrary: seen)
  case Nil
  show ?case by simp
next
  case (Cons x xs)
  from Cons.prems obtain u where u: "url x = JString u"
    by (cases "url x") (simp_all add: is_string_def)
  then have t: "typed x = with_url u x" by (simp add: typed_def)
  have rest: "filter_seen_run seen' xs = Inr (filter_seen seen' (map typed xs))" for seen'
    using Cons.IH Cons.prems by simp
  show ?case by (simp add: u t rest key_with_url)
qed

lemma filter_seen_run_throws:
  "\<exists>img\<in>set xs. \<not> is_string (url img) \<Longrightarrow> filter_seen_run seen xs = Inl TypeError"
proof (induction xs arbitrary: seen)
  case Nil
  then show ?case by simp
next
  case (Cons x xs)
  show ?case
  proof (cases "is_string (url x)")
    case True
    then obtain u where u: "url x = JString u"
      by (cases "url x") (simp_all add: is_string_def)
    from True Cons.prems have "\<exists>img\<in>set xs. \<not> is_string (url img)" by auto
    then have "filter_seen_run seen' xs = Inl TypeError" for seen' by (rule Cons.IH)
    then show ?thesis by (simp add: u Let_def)
  next
    case False
    then show ?thesis by (cases "url x") (simp_all add: is_string_def)
  qed
qed

section \<open>Claims about the duplicate filter\<close>

text \<open>
  C1: the duplicate filter is one pass in input order, keyed on the url cut at its first
  question mark. The output is the input restricted, in order, to the positions whose key
  occurs at no earlier position: the first record of a key is kept and every later one is
  dropped. The sources play no part: when the sources of the input records are replaced,
  the records at the same positions are kept. For the urls
  \<^verbatim>\<open>https://x.com/img.jpg?w=100\<close> (source loc, first) and
  \<^verbatim>\<open>https://x.com/img.jpg?w=200\<close> (source google, second) the output is the first record.
\<close>

theorem uniqueImages_first_wins:
  "uniqueImages xs =
     map (\<lambda>i. xs ! i)
       (filter (\<lambda>i. \<forall>j<i. key (xs ! j) \<noteq> key (xs ! i)) [0..<length xs])
   \<and> subseq (uniqueImages xs) xs
   \<and> uniqueImages (map (\<lambda>r. r\<lparr>source := f r\<rparr>) xs)
       = map (\<lambda>r. r\<lparr>source := f r\<rparr>) (uniqueImages xs)
   \<and> source img_loc \<noteq> source img_google
   \<and> uniqueImages [img_loc, img_google] = [img_loc]"
proof -
  have "uniqueImages xs =
     map (\<lambda>i. xs ! i)
       (filter (\<lambda>i. \<forall>j<i. key (xs ! j) \<noteq> key (xs ! i)) [0..<length xs])"
    unfolding uniqueImages_def by (subst filter_seen_nth) simp
  moreover have "subseq (uniqueImages xs) xs"
    unfolding uniqueImages_def by (rule filter_seen_subseq)
  moreover have "uniqueImages (map (\<lambda>r. r\<lparr>source := f r\<rparr>) xs)
       = map (\<lambda>r. r\<lparr>source := f r\<rparr>) (uniqueImages xs)"
    unfolding uniqueImages_def by (rule filter_seen_map) (simp add: key_def)
  moreover have "source img_loc \<noteq> source img_google"
    by (simp add: img_loc_def img_google_def mk_image_def)
  moreover have "uniqueImages [img_loc, img_google] = [img_loc]"
    by (simp add: uniqueImages_def key_def split_query_def img_loc_def img_google_def
        mk_image_def)
  ultimately show ?thesis by blast
qed

theorem uniqueImages_first_wins_witness:
  "uniqueImages [img_loc, img_google] =
     map (\<lambda>i. [img_loc, img_google] ! i)
       (filter (\<lambda>i. \<forall>j<i. key ([img_loc, img_google] ! j) \<noteq> key ([img_loc, img_google] ! i))
          [0..<length [img_loc, img_google]])
   \<and> key img_loc = ''https://x.com/img.jpg''
   \<and> key img_google = ''https://x.com/img.jpg''
   \<and> uniqueImages [img_loc, img_google] = [img_loc]"
  using uniqueImages_first_wins [of "[img_loc, img_google]"]
  by (simp add: key_def split_query_def img_loc_def img_google_def mk_image_def)

text \<open>
  C6: no two records of the output of the duplicate filter have the same url after the cut
  at the first question mark.
\<close>

theorem uniqueImages_no_duplicates:
  "distinct (map (\<lambda>img. split_query (url img)) (uniqueImages xs))"
  using filter_seen_distinct [of "{}" xs]
  by (simp add: uniqueImages_def key_def [abs_def])

text \<open>
  C9: filtering duplicates twice gives the same list as filtering once.
\<close>

theorem uniqueImages_idempotent:
  "uniqueImages (uniqueImages xs) = uniqueImages xs"
  unfolding uniqueImages_def by (rule filter_seen_again) simp

section \<open>Properties of the shuffle and of the route\<close>

lemma mset_insort_random:
  "mset (fst (insort_random rnd x ys k)) = add_mset x (mset ys)"
proof (induction ys arbitrary: k)
  case Nil
  show ?case by simp
next
  case (Cons y ys)
  obtain zs k' where r: "insort_random rnd x ys (Suc k) = (zs, k')"
    by (cases "insort_random rnd x ys (Suc k)")
  with Cons.IH [of "Suc k"] have "mset zs = add_mset x (mset ys)" by simp
  with r show ?case by simp
qed

lemma mset_sort_random: "mset (fst (sort_random rnd xs k)) = mset xs"
proof (induction xs arbitrary: k)
  case Nil
  show ?case by simp
next
  case (Cons x xs)
  obtain ys k' where s: "sort_random rnd xs k = (ys, k')" by (cases "sort_random rnd xs k")
  with Cons.IH [of k] have "mset ys = mset xs" by simp
  with s show ?case by (simp add: mset_insort_random)
qed

lemma mset_shuffled: "mset (shuffled rnd xs) = mset xs"
  by (simp add: shuffled_def mset_sort_random)

lemma promise_all_scrape:
  "promise_all (map (\<lambda>s. scrape w s q) ss) = Inr (map (records_of w q) ss)"
  by (induction ss) (auto simp: scrape_def records_of_def split: sum.splits)

lemma set_order_acc:
  "distinct acc \<Longrightarrow>
     distinct (foldl (\<lambda>acc x. if x \<in> set acc then acc else acc @ [x]) acc xs) \<and>
     set (foldl (\<lambda>acc x. if x \<in> set acc then acc else acc @ [x]) acc xs) = set acc \<union> set xs"
  by (induction xs arbitrary: acc) auto

lemma distinct_set_order: "distinct (set_order xs)"
  using set_order_acc [of "[]" xs] by (simp add: set_order_def)

lemma set_set_order: "set (set_order xs) = set xs"
  using set_order_acc [of "[]" xs] by (simp add: set_order_def)

lemma GET_reply:
  assumes "loc \<noteq> []"
    and "\<forall>img\<in>set (concat (map (records_of w loc) (queued p))). is_string (url img)"
  shows "GET rnd w (Some loc) p =
     (queued p,
      Inr \<lparr>resp_images =
             shuffled rnd (uniqueImages (map typed (concat (map (records_of w loc) (queued p))))),
           resp_count = length
             (shuffled rnd (uniqueImages (map typed (concat (map (records_of w loc) (queued p)))))),
           resp_sources = set_order (map source
             (shuffled rnd (uniqueImages (map typed (concat (map (records_of w loc) (queued p)))))))\<rparr>)"
proof -
  have "uniqueImages_run (concat (map (records_of w loc) (queued p)))
      = Inr (uniqueImages (map typed (concat (map (records_of w loc) (queued p)))))"
    unfolding uniqueImages_run_def uniqueImages_def
    using assms(2) by (rule filter_seen_run_strings)
  with assms(1) show ?thesis by (simp add: GET_def promise_all_scrape Let_def)
qed

lemma GET_search_failed:
  assumes "loc \<noteq> []"
    and "\<not> (\<forall>img\<in>set (concat (map (records_of w loc) (queued p))). is_string (url img))"
  shows "GET rnd w (Some loc) p = (queued p, Inl (Status500 ''Search failed''))"
proof -
  have "uniqueImages_run (concat (map (records_of w loc) (queued p))) = Inl TypeError"
    unfolding uniqueImages_run_def using assms(2) by (intro filter_seen_run_throws) blast
  with assms(1) show ?thesis by (simp add: GET_def promise_all_scrape Let_def)
qed

lemma queued_eval:
  "queued (Some ''bing'') = [''bing'']"
  "queued (Some ''google,bing'') = [''google'', ''bing'']"
  "queued (Some ''bing,unsplash'') = [''bing'', ''unsplash'']"
  by (simp_all add: queued_def sourcesParam_def known_sources_def)

lemma unsplash_unique:
  "uniqueImages unsplash_fallback
     = [mk_image ''unsplash-0'' ''https://source.unsplash.com/800x600/?Paris&sig=0''
          ''unsplash'' None]"
  by (simp add: unsplash_fallback_def uniqueImages_def key_def split_query_def mk_image_def)

lemma shuffled_single: "shuffled rnd [x] = [x]"
  by (simp add: shuffled_def)

lemma two_elements:
  assumes "distinct xs" "set xs = {A, B}" "A \<noteq> B"
  shows "xs = [A, B] \<or> xs = [B, A]"
proof -
  have "length xs = 2" using assms distinct_card [of xs] by simp
  then obtain a b where "xs = [a, b]"
    by (cases xs; cases "tl xs"; cases "tl (tl xs)") auto
  with assms show ?thesis by auto
qed

lemma distinct_queued: "distinct (queued p)"
proof -
  have "distinct known_sources" by (simp add: known_sources_def)
  then show ?thesis by (simp add: queued_def Let_def)
qed

lemma concat_two:
  assumes "set (queued p) = {A, B}" "A \<noteq> B" "w A q = Inr rs" "w B q = Inl e"
  shows "concat (map (records_of w q) (queued p)) = rs"
  using two_elements [OF distinct_queued assms(1) assms(2)] assms(3,4)
  by (auto simp: records_of_def)

lemma set_order_const: "xs \<noteq> [] \<Longrightarrow> \<forall>x\<in>set xs. x = a \<Longrightarrow> set_order xs = [a]"
proof -
  assume a: "xs \<noteq> []" "\<forall>x\<in>set xs. x = a"
  then have s: "set (set_order xs) = {a}" by (cases xs) (auto simp: set_set_order)
  have d: "distinct (set_order xs)" by (rule distinct_set_order)
  show ?thesis
  proof (cases "set_order xs")
    case Nil
    with s show ?thesis by simp
  next
    case (Cons y ys)
    with s have "y = a" by auto
    moreover have "ys = []"
    proof (cases ys)
      case Nil then show ?thesis .
    next
      case (Cons z zs)
      with s \<open>set_order xs = y # ys\<close> have "z = a" by auto
      with d \<open>set_order xs = y # ys\<close> Cons \<open>y = a\<close> show ?thesis by simp
    qed
    ultimately show ?thesis using Cons by simp
  qed
qed

section \<open>Claims about the shuffle and the route\<close>

text \<open>
  C7: the shuffle returns a permutation of its input: the same records with the same
  multiplicities, none added, dropped or changed, whatever \<^verbatim>\<open>Math.random()\<close> returns.
\<close>

theorem shuffled_permutation: "mset (shuffled rnd x) = mset x"
  by (simp add: shuffled_def mset_sort_random)




text \<open>
  Against C4 as it is written, at two inputs with a non-empty query and two adapters
  enabled. First, google throws in its \<^verbatim>\<open>try\<close> block and Bing returns a record whose
  url is the number 123: the route answers with the error of status 500. Second, Bing
  throws and Unsplash returns its eight fallback records: the route answers with one of
  the eight records.
\<close>

theorem GET_partial_failure_counterexample:
  "GET (\<lambda>k. 0) world_murl (Some ''Paris'') (Some ''google,bing'')
     = ([''google'', ''bing''], Inl (Status500 ''Search failed''))
   \<and> world_unsplash ''bing'' ''Paris'' = Inl (Exn ''fetch failed'')
   \<and> world_unsplash ''unsplash'' ''Paris'' = Inr (map runtime unsplash_fallback)
   \<and> length unsplash_fallback = 8
   \<and> GET (\<lambda>k. 0) world_unsplash (Some ''Paris'') (Some ''bing,unsplash'')
     = ([''bing'', ''unsplash''],
        Inr \<lparr>resp_images =
               [mk_image ''unsplash-0'' ''https://source.unsplash.com/800x600/?Paris&sig=0''
                  ''unsplash'' None],
             resp_count = 1, resp_sources = [''unsplash'']\<rparr>)"
proof -
  have "\<not> (\<forall>img\<in>set (concat (map (records_of world_murl ''Paris'')
               (queued (Some ''google,bing'')))). is_string (url img))"
    by (simp add: queued_eval records_of_def world_murl_def is_string_def with_url_def)
  then have "GET (\<lambda>k. 0) world_murl (Some ''Paris'') (Some ''google,bing'')
       = (queued (Some ''google,bing''), Inl (Status500 ''Search failed''))"
    by (intro GET_search_failed) simp_all
  then have 1: "GET (\<lambda>k. 0) world_murl (Some ''Paris'') (Some ''google,bing'')
     = ([''google'', ''bing''], Inl (Status500 ''Search failed''))"
    by (simp add: queued_eval)
  have all: "concat (map (records_of world_unsplash ''Paris'') (queued (Some ''bing,unsplash'')))
      = map runtime unsplash_fallback"
    by (simp add: queued_eval records_of_def world_unsplash_def)
  have "\<forall>img\<in>set (map runtime unsplash_fallback). is_string (url img)"
    by (simp add: is_string_runtime)
  then have "GET (\<lambda>k. 0) world_unsplash (Some ''Paris'') (Some ''bing,unsplash'')
      = (queued (Some ''bing,unsplash''),
         Inr \<lparr>resp_images = shuffled (\<lambda>k. 0) (uniqueImages (map typed (map runtime unsplash_fallback))),
              resp_count = length
                (shuffled (\<lambda>k. 0) (uniqueImages (map typed (map runtime unsplash_fallback)))),
              resp_sources = set_order (map source
                (shuffled (\<lambda>k. 0) (uniqueImages (map typed (map runtime unsplash_fallback)))))\<rparr>)"
    using GET_reply [of "''Paris''" world_unsplash "Some ''bing,unsplash''" "\<lambda>k. 0"]
    by (simp only: all) simp
  moreover have "map typed (map runtime unsplash_fallback) = unsplash_fallback"
    by (simp add: typed_runtime comp_def)
  ultimately have 2: "GET (\<lambda>k. 0) world_unsplash (Some ''Paris'') (Some ''bing,unsplash'')
     = ([''bing'', ''unsplash''],
        Inr \<lparr>resp_images =
               [mk_image ''unsplash-0'' ''https://source.unsplash.com/800x600/?Paris&sig=0''
                  ''unsplash'' None],
             resp_count = 1, resp_sources = [''unsplash'']\<rparr>)"
    by (simp add: queued_eval unsplash_unique shuffled_single set_order_def mk_image_def)
  have 3: "world_unsplash ''bing'' ''Paris'' = Inl (Exn ''fetch failed'')"
    "world_unsplash ''unsplash'' ''Paris'' = Inr (map runtime unsplash_fallback)"
    "length unsplash_fallback = 8"
    by (simp_all add: world_unsplash_def unsplash_fallback_def)
  from 1 2 3 show ?thesis by blast
qed

text \<open>
  C4, amended: for a non-empty query, when of the two adapters queued one throws in its
  \<^verbatim>\<open>try\<close> block and the other returns the records \<open>rs\<close>, whose urls are all strings,
  the route answers with a response whose images are a permutation of \<open>rs\<close> without the
  later duplicates of a url key (of \<open>rs\<close> itself when its keys are distinct). The sources
  of the response are, without repetition, the sources of its images: the one adapter
  \<open>A\<close> when it stamps its records and returns some. The failure of an adapter never makes
  the route answer with an error: for every world and every \<^verbatim>\<open>sources\<close> parameter in
  which each record returned has a string url, the route answers with a response.
\<close>

theorem GET_partial_failure:
  assumes "q \<noteq> []"
    and "set (queued p) = {A, B}" and "A \<noteq> B"
    and "w A q = Inr rs" and "w B q = Inl e"
    and "\<forall>img\<in>set rs. is_string (url img)"
  shows "\<exists>resp. GET rnd w (Some q) p = (queued p, Inr resp)
           \<and> mset (resp_images resp) = mset (uniqueImages (map typed rs))
           \<and> (distinct (map key (map typed rs)) \<longrightarrow>
                 mset (resp_images resp) = mset (map typed rs))
           \<and> resp_count resp = length (resp_images resp)
           \<and> distinct (resp_sources resp)
           \<and> set (resp_sources resp) = source ` set (resp_images resp)
           \<and> (rs \<noteq> [] \<and> (\<forall>r\<in>set rs. source r = A) \<longrightarrow> resp_sources resp = [A])
           \<and> (\<forall>w' p'.
                 (\<forall>img\<in>set (concat (map (records_of w' q) (queued p'))). is_string (url img))
                 \<longrightarrow> (\<exists>resp'. GET rnd w' (Some q) p' = (queued p', Inr resp')
                        \<and> set (resp_sources resp') = source ` set (resp_images resp')))"
proof -
  let ?ts = "map typed rs"
  let ?sh = "shuffled rnd (uniqueImages ?ts)"
  let ?resp = "\<lparr>resp_images = ?sh, resp_count = length ?sh,
                 resp_sources = set_order (map source ?sh)\<rparr>"
  have all: "concat (map (records_of w q) (queued p)) = rs"
    using assms(2-5) by (rule concat_two)
  have reply: "GET rnd w (Some q) p = (queued p, Inr ?resp)"
    using GET_reply [of q w p rnd] assms(1,6) by (simp only: all) simp
  have perm: "mset ?sh = mset (uniqueImages ?ts)"
    by (rule mset_shuffled)
  have same: "distinct (map key ?ts) \<longrightarrow> mset ?sh = mset ?ts"
    by (simp add: mset_shuffled uniqueImages_def filter_seen_id)
  have srcs: "rs \<noteq> [] \<and> (\<forall>r\<in>set rs. source r = A) \<longrightarrow> set_order (map source ?sh) = [A]"
  proof
    assume a: "rs \<noteq> [] \<and> (\<forall>r\<in>set rs. source r = A)"
    have "set ?sh = set (uniqueImages ?ts)"
      using perm by (rule mset_eq_setD)
    then have sub: "set ?sh \<subseteq> set ?ts"
      using filter_seen_set [of "{}" ?ts] by (simp add: uniqueImages_def)
    have "uniqueImages ?ts \<noteq> []"
      using a by (cases rs) (simp_all add: uniqueImages_def)
    moreover have "length ?sh = length (uniqueImages ?ts)"
      using perm by (rule mset_eq_length)
    ultimately have "?sh \<noteq> []" by auto
    moreover have "\<forall>x\<in>set ?ts. source x = A"
      using a by (simp add: typed_def source_with_url)
    then have "\<forall>x\<in>set (map source ?sh). x = A" using sub by auto
    ultimately show "set_order (map source ?sh) = [A]"
      by (intro set_order_const) simp_all
  qed
  have never: "\<forall>w' p'.
      (\<forall>img\<in>set (concat (map (records_of w' q) (queued p'))). is_string (url img))
      \<longrightarrow> (\<exists>resp'. GET rnd w' (Some q) p' = (queued p', Inr resp')
             \<and> set (resp_sources resp') = source ` set (resp_images resp'))"
  proof (intro allI impI)
    fix w' p'
    assume "\<forall>img\<in>set (concat (map (records_of w' q) (queued p'))). is_string (url img)"
    then show "\<exists>resp'. GET rnd w' (Some q) p' = (queued p', Inr resp')
             \<and> set (resp_sources resp') = source ` set (resp_images resp')"
      using assms(1) by (simp add: GET_reply set_set_order)
  qed
  show ?thesis
    using reply perm same srcs never
    by (intro exI [of _ ?resp]) (simp add: distinct_set_order set_set_order)
qed

theorem GET_partial_failure_witness:
  "\<exists>resp. GET (\<lambda>k. 0) world1 (Some ''Paris'') (Some ''google,bing'')
             = ([''google'', ''bing''], Inr resp)
     \<and> mset (resp_images resp)
         = {#mk_image ''google-0'' ''https://a.com/1.jpg'' ''google'' None,
             mk_image ''google-1'' ''https://a.com/2.jpg'' ''google'' None#}
     \<and> resp_count resp = 2
     \<and> resp_sources resp = [''google'']"
proof -
  let ?ts = "[mk_image ''google-0'' ''https://a.com/1.jpg'' ''google'' None,
              mk_image ''google-1'' ''https://a.com/2.jpg'' ''google'' None]"
  let ?rs = "map runtime ?ts"
  have h1: "''Paris'' \<noteq> []" by simp
  have h2: "set (queued (Some ''google,bing'')) = {''google'', ''bing''}"
    by (simp add: queued_eval)
  have h3: "''google'' \<noteq> ''bing''" by simp
  have h4: "world1 ''google'' ''Paris'' = Inr ?rs" by (simp add: world1_def)
  have h5: "world1 ''bing'' ''Paris'' = Inl (Exn ''fetch failed'')" by (simp add: world1_def)
  have h6: "\<forall>img\<in>set ?rs. is_string (url img)" by (simp add: is_string_runtime)
  have t: "map typed ?rs = ?ts" by (simp add: typed_runtime)
  have d: "distinct (map key ?ts)" by (simp add: key_def split_query_def mk_image_def)
  have s: "?rs \<noteq> [] \<and> (\<forall>r\<in>set ?rs. source r = ''google'')"
    by (simp add: runtime_def source_with_url mk_image_def)
  from GET_partial_failure [of "''Paris''" "Some ''google,bing''" "''google''" "''bing''"
      world1 ?rs "Exn ''fetch failed''" "\<lambda>k. 0", OF h1 h2 h3 h4 h5 h6] obtain resp where
    r: "GET (\<lambda>k. 0) world1 (Some ''Paris'') (Some ''google,bing'')
          = (queued (Some ''google,bing''), Inr resp)"
      "distinct (map key (map typed ?rs)) \<longrightarrow> mset (resp_images resp) = mset (map typed ?rs)"
      "resp_count resp = length (resp_images resp)"
      "?rs \<noteq> [] \<and> (\<forall>r\<in>set ?rs. source r = ''google'') \<longrightarrow> resp_sources resp = [''google'']"
    by blast
  from r(2) d have m: "mset (resp_images resp) = mset ?ts" by (simp only: t)
  have "length (resp_images resp) = length ?ts" using m by (rule mset_eq_length)
  then have c: "resp_count resp = 2" using r(3) by simp
  have g: "GET (\<lambda>k. 0) world1 (Some ''Paris'') (Some ''google,bing'')
             = ([''google'', ''bing''], Inr resp)"
    using r(1) by (simp only: queued_eval)
  have m': "mset (resp_images resp)
         = {#mk_image ''google-0'' ''https://a.com/1.jpg'' ''google'' None,
             mk_image ''google-1'' ''https://a.com/2.jpg'' ''google'' None#}"
    using m by simp
  have "resp_sources resp = [''google'']" using r(4) s by blast
  with g m' c show ?thesis by blast
qed

section \<open>Properties of the timeline\<close>

subsection \<open>The sort and the table\<close>

lemma mset_insort_cmp: "mset (insort_cmp cmp x ys) = add_mset x (mset ys)"
  by (induction ys) auto

lemma mset_sort_cmp: "mset (sort_cmp cmp xs) = mset xs"
  by (induction xs) (auto simp: sort_cmp_def mset_insort_cmp)

lemma set_sort_cmp: "set (sort_cmp cmp xs) = set xs"
  using mset_sort_cmp [of cmp xs] by (rule mset_eq_setD)

lemma distinct_plabel: "distinct (map plabel (periodDefs now))"
  by (simp add: periodDefs_def)

lemma plabel_inj:
  "d \<in> set (periodDefs now) \<Longrightarrow> d' \<in> set (periodDefs now) \<Longrightarrow> plabel d = plabel d' \<Longrightarrow> d = d'"
  using distinct_plabel [of now] by (auto simp: distinct_map dest: inj_onD)

lemma plabel_not_unknown:
  "d \<in> set (periodDefs now) \<Longrightarrow> plabel d \<noteq> ''Modern / Unknown Date''"
  by (auto simp: periodDefs_def)

lemma find_period_in: "find_period now y = Some d \<Longrightarrow> d \<in> set (periodDefs now)"
  unfolding find_period_def by (auto simp: find_Some_iff)

lemma chained_covers:
  "chained ds \<Longrightarrow> ds \<noteq> [] \<Longrightarrow> pstart (last ds) \<le> y \<Longrightarrow> y \<le> pend (hd ds) \<Longrightarrow>
     \<exists>d\<in>set ds. pstart d \<le> y \<and> y \<le> pend d"
proof (induction ds rule: chained.induct)
  case (1 d d' ds)
  show ?case
  proof (cases "pstart d \<le> y")
    case True
    with 1 show ?thesis by auto
  next
    case False
    with 1 have "\<exists>d\<in>set (d' # ds). pstart d \<le> y \<and> y \<le> pend d" by simp
    then show ?thesis by auto
  qed
qed auto

lemma find_period_exists:
  "find_period now y \<noteq> None \<longleftrightarrow> (\<exists>d\<in>set (periodDefs now). pstart d \<le> y \<and> y \<le> pend d)"
  unfolding find_period_def by (auto simp: find_None_iff)

lemma periodDefs_bounds:
  "\<forall>d\<in>set (periodDefs now). 0 \<le> pstart d \<and> (pend d \<le> 2019 \<or> pstart d = 2020 \<and> pend d = now)"
  by (simp add: periodDefs_def)

lemma find_period_range:
  "find_period now y \<noteq> None \<longleftrightarrow> (0 \<le> y \<and> y \<le> 2019) \<or> (2020 \<le> y \<and> y \<le> now)"
proof
  assume "find_period now y \<noteq> None"
  then obtain d where "d \<in> set (periodDefs now)" "pstart d \<le> y" "y \<le> pend d"
    unfolding find_period_exists by blast
  with periodDefs_bounds [of now] show "(0 \<le> y \<and> y \<le> 2019) \<or> (2020 \<le> y \<and> y \<le> now)"
    by force
next
  assume r: "(0 \<le> y \<and> y \<le> 2019) \<or> (2020 \<le> y \<and> y \<le> now)"
  show "find_period now y \<noteq> None"
  proof (cases "2020 \<le> y \<and> y \<le> now")
    case True
    then show ?thesis unfolding find_period_exists by (simp add: periodDefs_def)
  next
    case False
    with r have y: "0 \<le> y" "y \<le> 2019" by auto
    have "chained (tl (periodDefs now))" by (simp add: periodDefs_def)
    moreover have "tl (periodDefs now) \<noteq> []" by (simp add: periodDefs_def)
    moreover have "pstart (last (tl (periodDefs now))) \<le> y" using y by (simp add: periodDefs_def)
    moreover have "y \<le> pend (hd (tl (periodDefs now)))" using y by (simp add: periodDefs_def)
    ultimately have "\<exists>d\<in>set (tl (periodDefs now)). pstart d \<le> y \<and> y \<le> pend d"
      by (rule chained_covers)
    moreover have "set (tl (periodDefs now)) \<subseteq> set (periodDefs now)"
      by (simp add: periodDefs_def subset_insertI2)
    ultimately show ?thesis unfolding find_period_exists by blast
  qed
qed

subsection \<open>Appending an image to its period\<close>

lemma labels_push_image:
  "set (map label (push_image d img res)) = insert (plabel d) (set (map label res))"
  by (induction res) auto

lemma distinct_push_image:
  "distinct (map label res) \<Longrightarrow> distinct (map label (push_image d img res))"
proof (induction res)
  case Nil
  show ?case by simp
next
  case (Cons r res)
  show ?case
  proof (cases "label r = plabel d")
    case True
    with Cons.prems show ?thesis by simp
  next
    case False
    have "label r \<notin> set (map label (push_image d img res))"
      using Cons.prems False unfolding labels_push_image by auto
    with Cons False show ?thesis by simp
  qed
qed

lemma mset_push_image:
  "mset (concat (map images (push_image d img res)))
     = add_mset img (mset (concat (map images res)))"
  by (induction res) auto

lemma periodDef_eta: "\<lparr>plabel = plabel d, pstart = pstart d, pend = pend d\<rparr> = d"
  by (cases d) simp

lemma dated_ok_push_image:
  assumes "find_period now (the_year img) = Some d" and "\<not> no_year img"
    and "\<forall>p\<in>set res. dated_ok now p"
  shows "\<forall>p\<in>set (push_image d img res). dated_ok now p"
  using assms(3)
proof (induction res)
  case Nil
  have "d \<in> set (periodDefs now)" using assms(1) by (rule find_period_in)
  then show ?case using assms(1,2) by (simp add: dated_ok_def def_of_def periodDef_eta)
next
  case (Cons r res)
  show ?case
  proof (cases "label r = plabel d")
    case True
    have "def_of r \<in> set (periodDefs now)" using Cons.prems by (simp add: dated_ok_def)
    moreover have "d \<in> set (periodDefs now)" using assms(1) by (rule find_period_in)
    moreover have "plabel (def_of r) = plabel d" using True by (simp add: def_of_def)
    ultimately have "def_of r = d" by (rule plabel_inj)
    then have "dated_ok now (r\<lparr>images := images r @ [img]\<rparr>)"
      using Cons.prems assms(1,2) by (auto simp: dated_ok_def def_of_def)
    with True Cons.prems show ?thesis by simp
  next
    case False
    with Cons show ?thesis by simp
  qed
qed

subsection \<open>The loop, from any state\<close>

lemma loop_undated:
  "snd (foldl (group_step now) (res, und) ys) = und @ filter no_year ys"
  by (induction ys arbitrary: res und) (auto split: option.splits)

lemma loop_distinct:
  "distinct (map label res) \<Longrightarrow>
     distinct (map label (fst (foldl (group_step now) (res, und) ys)))"
  by (induction ys arbitrary: res und) (auto split: option.splits simp: distinct_push_image)

lemma loop_dated_ok:
  "\<forall>p\<in>set res. dated_ok now p \<Longrightarrow>
     \<forall>p\<in>set (fst (foldl (group_step now) (res, und) ys)). dated_ok now p"
proof (induction ys arbitrary: res und)
  case Nil
  then show ?case by simp
next
  case (Cons y ys)
  show ?case
  proof (cases "no_year y")
    case True
    with Cons show ?thesis by simp
  next
    case False
    show ?thesis
    proof (cases "find_period now (the_year y)")
      case None
      with False Cons show ?thesis by simp
    next
      case (Some d)
      have "\<forall>p\<in>set (push_image d y res). dated_ok now p"
        using Some False Cons.prems by (rule dated_ok_push_image)
      then show ?thesis using Some False Cons.IH by simp
    qed
  qed
qed

lemma loop_mset:
  "mset (concat (map images (fst (foldl (group_step now) (res, und) ys))))
     = mset (concat (map images res))
       + mset (filter (\<lambda>r. \<not> no_year r \<and> find_period now (the_year r) \<noteq> None) ys)"
  by (induction ys arbitrary: res und) (auto split: option.splits simp: mset_push_image)

subsection \<open>The periods before and after the last sort\<close>

lemma stable_insort_by_year:
  "filter no_year (insort_cmp by_year x ys) = filter no_year (x # ys)"
  by (induction ys) (auto simp: by_year_def)

lemma stable_sort_by_year: "filter no_year (sort_cmp by_year xs) = filter no_year xs"
  by (induction xs) (auto simp: sort_cmp_def stable_insort_by_year)

lemma periods_before_sort: "periods now xs = sort_cmp by_startYear (before_sort now xs)"
proof -
  obtain res und where f: "foldl (group_step now) ([], []) (sort_cmp by_year xs) = (res, und)"
    by (cases "foldl (group_step now) ([], []) (sort_cmp by_year xs)")
  have "und = filter no_year xs"
    using loop_undated [of now "[]" "[]" "sort_cmp by_year xs"] f
    by (simp add: stable_sort_by_year)
  with f show ?thesis by (simp add: periods_def before_sort_def)
qed

lemma set_periods: "set (periods now xs) = set (before_sort now xs)"
  by (simp add: periods_before_sort set_sort_cmp)

lemma unknown_date_fields:
  "label (unknown_date now und) = ''Modern / Unknown Date''"
  "startYear (unknown_date now und) = now"
  "endYear (unknown_date now und) = now"
  "images (unknown_date now und) = und"
  by (simp_all add: unknown_date_def)

lemma dated_label: "dated_ok now p \<Longrightarrow> label p \<noteq> ''Modern / Unknown Date''"
  using plabel_not_unknown [of "def_of p" now] by (simp add: dated_ok_def def_of_def)

lemma before_sort_cases:
  assumes "p \<in> set (before_sort now xs)"
  shows "dated_ok now p \<or> (p = unknown_date now (filter no_year xs) \<and> filter no_year xs \<noteq> [])"
proof -
  have "\<forall>p\<in>set (fst (foldl (group_step now) ([], []) (sort_cmp by_year xs))). dated_ok now p"
    by (rule loop_dated_ok) simp
  with assms show ?thesis by (auto simp: before_sort_def split: if_splits)
qed

lemma before_sort_distinct: "distinct (map label (before_sort now xs))"
proof -
  let ?res = "fst (foldl (group_step now) ([], []) (sort_cmp by_year xs))"
  have d: "distinct (map label ?res)" by (rule loop_distinct) simp
  have "\<forall>p\<in>set ?res. dated_ok now p" by (rule loop_dated_ok) simp
  then have "''Modern / Unknown Date'' \<notin> set (map label ?res)"
    using dated_label by fastforce
  with d show ?thesis
    by (cases "filter no_year xs = []") (simp_all add: before_sort_def unknown_date_fields)
qed

lemma filter_two:
  "mset (filter P xs) + mset (filter Q xs) = mset (filter (\<lambda>r. Q r \<or> P r) xs)"
  if "\<And>r. \<not> (P r \<and> Q r)"
  using that by (induction xs) auto

lemma before_sort_mset:
  "mset (concat (map images (before_sort now xs)))
     = mset (filter (\<lambda>r. no_year r \<or> \<not> no_year r \<and> find_period now (the_year r) \<noteq> None) xs)"
proof -
  let ?D = "\<lambda>r. \<not> no_year r \<and> find_period now (the_year r) \<noteq> None"
  have "mset (filter ?D (sort_cmp by_year xs)) = mset (filter ?D xs)"
    by (simp add: mset_sort_cmp)
  then have "mset (concat (map images (fst (foldl (group_step now) ([], []) (sort_cmp by_year xs)))))
           = mset (filter ?D xs)"
    by (simp add: loop_mset)
  moreover have "mset (concat (map images
       (if filter no_year xs \<noteq> [] then [unknown_date now (filter no_year xs)] else [])))
           = mset (filter no_year xs)"
  proof (cases "filter no_year xs = []")
    case True
    then show ?thesis by simp
  next
    case False
    then show ?thesis by (simp add: unknown_date_fields(4))
  qed
  moreover have "mset (filter ?D xs) + mset (filter no_year xs)
           = mset (filter (\<lambda>r. no_year r \<or> ?D r) xs)"
    by (rule filter_two) blast
  ultimately show ?thesis by (simp add: before_sort_def)
qed

lemma mset_concat_images:
  "mset ps = mset qs \<Longrightarrow> mset (concat (map images ps)) = mset (concat (map images qs))"
proof -
  assume "mset ps = mset qs"
  then have "image_mset (\<lambda>p. mset (images p)) (mset ps) = image_mset (\<lambda>p. mset (images p)) (mset qs)"
    by simp
  then have "sum_list (map (\<lambda>p. mset (images p)) ps) = sum_list (map (\<lambda>p. mset (images p)) qs)"
    by (metis mset_map sum_mset_sum_list)
  then show ?thesis by (simp add: mset_concat comp_def)
qed

lemma periods_mset:
  "mset (concat (map images (periods now xs)))
     = mset (filter (\<lambda>r. no_year r \<or> \<not> no_year r \<and> find_period now (the_year r) \<noteq> None) xs)"
proof -
  have "mset (periods now xs) = mset (before_sort now xs)"
    by (simp add: periods_before_sort mset_sort_cmp)
  then have "mset (concat (map images (periods now xs)))
           = mset (concat (map images (before_sort now xs)))"
    by (rule mset_concat_images)
  then show ?thesis by (simp only: before_sort_mset)
qed

lemma periods_distinct: "distinct (map label (periods now xs))"
proof -
  have "mset (map label (periods now xs)) = mset (map label (before_sort now xs))"
    by (simp add: periods_before_sort mset_sort_cmp)
  then show ?thesis
    using before_sort_distinct [of now xs] by (metis mset_eq_imp_distinct_iff)
qed

lemma set_insort_cmp: "set (insort_cmp cmp x ys) = insert x (set ys)"
  by (induction ys) auto

lemma sorted_insort_by_startYear:
  "sorted_wrt (\<lambda>a b. startYear b \<le> startYear a) ys \<Longrightarrow>
     sorted_wrt (\<lambda>a b. startYear b \<le> startYear a) (insort_cmp by_startYear x ys)"
proof (induction ys)
  case Nil
  show ?case by simp
next
  case (Cons y ys)
  show ?case
  proof (cases "by_startYear x y \<le> 0")
    case True
    with Cons.prems show ?thesis by (auto simp: by_startYear_def)
  next
    case False
    with Cons show ?thesis by (auto simp: by_startYear_def set_insort_cmp)
  qed
qed

lemma sorted_periods: "sorted_wrt (\<lambda>a b. startYear b \<le> startYear a) (periods now xs)"
proof -
  have "sorted_wrt (\<lambda>a b. startYear b \<le> startYear a) (sort_cmp by_startYear ps)" for ps
    by (induction ps) (simp_all add: sort_cmp_def sorted_insort_by_startYear)
  then show ?thesis by (simp add: periods_before_sort)
qed

lemmas eval_periods =
  periods_def sort_cmp_def by_year_def no_year_def the_year_def img_of_year_def mk_image_def
  find_period_def periodDefs_def by_startYear_def unknown_date_def

lemma period_of_image:
  assumes "p \<in> set (periods now xs)" and "r \<in> set (images p)"
  shows "if no_year r then p = unknown_date now (filter no_year xs)
         else find_period now (the_year r) = Some (def_of p) \<and> dated_ok now p"
proof -
  from assms(1) have "p \<in> set (before_sort now xs)" by (simp add: set_periods)
  then consider "dated_ok now p" | "p = unknown_date now (filter no_year xs)"
    using before_sort_cases by blast
  then show ?thesis
  proof cases
    case 1
    with assms(2) show ?thesis by (simp add: dated_ok_def)
  next
    case 2
    with assms(2) have "no_year r" by (simp add: unknown_date_fields)
    with 2 show ?thesis by simp
  qed
qed

lemma start_2020s: "d \<in> set (periodDefs now) \<Longrightarrow> plabel d = ''2020s'' \<Longrightarrow> pstart d = 2020"
  by (auto simp: periodDefs_def)

lemma period_nonempty: "p \<in> set (periods now xs) \<Longrightarrow> images p \<noteq> []"
  using before_sort_cases [of p now xs]
  by (auto simp: set_periods dated_ok_def unknown_date_fields)

lemma unknown_start:
  "p \<in> set (periods now xs) \<Longrightarrow> label p = ''Modern / Unknown Date'' \<Longrightarrow> startYear p = now"
  using before_sort_cases [of p now xs] dated_label [of now p]
  by (auto simp: set_periods unknown_date_fields)

lemma start_of_2020s:
  "p \<in> set (periods now xs) \<Longrightarrow> label p = ''2020s'' \<Longrightarrow> startYear p = 2020"
  using before_sort_cases [of p now xs] start_2020s [of "def_of p" now]
  by (auto simp: set_periods dated_ok_def def_of_def unknown_date_fields)

section \<open>Claims about the timeline\<close>

text \<open>
  Against C2 as it is written: in 2026 an image of the year 2029, a year that the adapters'
  pattern \<^verbatim>\<open>20[0-2][0-9]\<close> accepts, is in no range of the table; the input is not empty
  and no period is output, so the image is absent.
\<close>

theorem periods_drops_counterexample:
  "[img_of_year (Some 2029)] \<noteq> [] \<and> periods 2026 [img_of_year (Some 2029)] = []"
  by (simp add: eval_periods)

text \<open>
  C2, amended: the images of all output periods together are, with multiplicities, the
  input images whose year is absent or 0, or lies in a range of the table (0 to 2019, or
  2020 to the current year); an image with any other year is in no period. The labels of
  the output periods are distinct, so each of these images is in exactly one period: the
  period \<open>Modern / Unknown Date\<close> when its year is absent or 0, otherwise the period made
  from the first entry of the table whose range contains its year.
\<close>

theorem periods_coverage:
  "mset (concat (map images (periods now xs)))
     = mset (filter (\<lambda>r. no_year r \<or> (0 \<le> the_year r \<and> the_year r \<le> 2019)
                          \<or> (2020 \<le> the_year r \<and> the_year r \<le> now)) xs)
   \<and> distinct (map label (periods now xs))
   \<and> (\<forall>p\<in>set (periods now xs). \<forall>r\<in>set (images p).
        if no_year r then label p = ''Modern / Unknown Date''
        else find_period now (the_year r)
               = Some \<lparr>plabel = label p, pstart = startYear p, pend = endYear p\<rparr>)"
proof (intro conjI ballI)
  have "(\<lambda>r. no_year r \<or> \<not> no_year r \<and> find_period now (the_year r) \<noteq> None)
      = (\<lambda>r. no_year r \<or> (0 \<le> the_year r \<and> the_year r \<le> 2019)
                          \<or> (2020 \<le> the_year r \<and> the_year r \<le> now))"
    unfolding find_period_range by blast
  then show "mset (concat (map images (periods now xs)))
     = mset (filter (\<lambda>r. no_year r \<or> (0 \<le> the_year r \<and> the_year r \<le> 2019)
                          \<or> (2020 \<le> the_year r \<and> the_year r \<le> now)) xs)"
    using periods_mset [of now xs] by simp
next
  show "distinct (map label (periods now xs))" by (rule periods_distinct)
next
  fix p r
  assume "p \<in> set (periods now xs)" "r \<in> set (images p)"
  then show "if no_year r then label p = ''Modern / Unknown Date''
        else find_period now (the_year r)
               = Some \<lparr>plabel = label p, pstart = startYear p, pend = endYear p\<rparr>"
    using period_of_image [of p now xs r] by (auto simp: unknown_date_fields def_of_def)
qed

theorem periods_coverage_witness:
  "periods 2026 [img_of_year (Some 2021), img_of_year None]
     = [unknown_date 2026 [img_of_year None],
        \<lparr>label = ''2020s'', startYear = 2020, endYear = 2026,
         images = [img_of_year (Some 2021)]\<rparr>]
   \<and> mset (concat (map images (periods 2026 [img_of_year (Some 2021), img_of_year None])))
       = mset [img_of_year (Some 2021), img_of_year None]
   \<and> find_period 2026 2021 = Some \<lparr>plabel = ''2020s'', pstart = 2020, pend = 2026\<rparr>"
proof -
  let ?xs = "[img_of_year (Some 2021), img_of_year None]"
  let ?p = "\<lparr>label = ''2020s'', startYear = 2020, endYear = 2026,
         images = [img_of_year (Some 2021)]\<rparr>"
  have e: "periods 2026 ?xs = [unknown_date 2026 [img_of_year None], ?p]"
    by (simp add: eval_periods)
  have y: "\<not> no_year (img_of_year (Some 2021))" "the_year (img_of_year (Some 2021)) = 2021"
    "no_year (img_of_year None)"
    by (simp_all add: no_year_def the_year_def img_of_year_def mk_image_def)
  have m: "mset (concat (map images (periods 2026 ?xs))) = mset ?xs"
    using periods_coverage [of 2026 ?xs] y by simp
  have "?p \<in> set (periods 2026 ?xs)" "img_of_year (Some 2021) \<in> set (images ?p)"
    by (simp_all add: e)
  with periods_coverage [of 2026 ?xs] y
  have "find_period 2026 2021 = Some \<lparr>plabel = ''2020s'', pstart = 2020, pend = 2026\<rparr>"
    by fastforce
  with e m show ?thesis by blast
qed

text \<open>
  Against C3 as it is written: an image whose year is present and equal to 0 is in the
  period \<open>Modern / Unknown Date\<close>.
\<close>

theorem year_zero_counterexample:
  "year (img_of_year (Some 0)) = Some 0
   \<and> periods 2026 [img_of_year (Some 0)]
       = [\<lparr>label = ''Modern / Unknown Date'', startYear = 2026, endYear = 2026,
           images = [img_of_year (Some 0)]\<rparr>]"
  by (simp add: eval_periods)

text \<open>
  C3, amended: in the output, the images of the period \<open>Modern / Unknown Date\<close> are
  images whose year is absent or 0, and the images of every other period have a year that
  is not 0: no image with a non-zero year is in the undated period, and no image whose year
  is absent or 0 is in a dated period.
\<close>

theorem periods_disjoint:
  "\<forall>p\<in>set (periods now xs). \<forall>r\<in>set (images p).
     (label p = ''Modern / Unknown Date'' \<longleftrightarrow> year r = None \<or> year r = Some 0)"
proof (intro ballI)
  fix p r
  assume a: "p \<in> set (periods now xs)" "r \<in> set (images p)"
  have n: "no_year r \<longleftrightarrow> year r = None \<or> year r = Some 0"
    by (simp add: no_year_def split: option.splits)
  show "label p = ''Modern / Unknown Date'' \<longleftrightarrow> year r = None \<or> year r = Some 0"
  proof (cases "no_year r")
    case True
    with period_of_image [OF a] n show ?thesis by (simp add: unknown_date_fields)
  next
    case False
    with period_of_image [OF a] have "dated_ok now p" by simp
    then have "label p \<noteq> ''Modern / Unknown Date''" by (rule dated_label)
    with False n show ?thesis by simp
  qed
qed

theorem periods_disjoint_witness:
  "periods 2026 [img_of_year (Some 1995), img_of_year None]
     = [unknown_date 2026 [img_of_year None],
        \<lparr>label = ''1990s'', startYear = 1990, endYear = 1999,
         images = [img_of_year (Some 1995)]\<rparr>]
   \<and> (label (unknown_date 2026 [img_of_year None]) = ''Modern / Unknown Date''
        \<longleftrightarrow> year (img_of_year None) = None \<or> year (img_of_year None) = Some 0)
   \<and> (''1990s'' = ''Modern / Unknown Date''
        \<longleftrightarrow> year (img_of_year (Some 1995)) = None \<or> year (img_of_year (Some 1995)) = Some 0)"
proof -
  let ?xs = "[img_of_year (Some 1995), img_of_year None]"
  let ?p = "\<lparr>label = ''1990s'', startYear = 1990, endYear = 1999,
         images = [img_of_year (Some 1995)]\<rparr>"
  have e: "periods 2026 ?xs = [unknown_date 2026 [img_of_year None], ?p]"
    by (simp add: eval_periods)
  have 1: "unknown_date 2026 [img_of_year None] \<in> set (periods 2026 ?xs)"
    "img_of_year None \<in> set (images (unknown_date 2026 [img_of_year None]))"
    by (simp_all add: e unknown_date_fields)
  have 2: "?p \<in> set (periods 2026 ?xs)" "img_of_year (Some 1995) \<in> set (images ?p)"
    by (simp_all add: e)
  from periods_disjoint [of 2026 ?xs, rule_format, OF 1]
    periods_disjoint [of 2026 ?xs, rule_format, OF 2] e
  show ?thesis by simp
qed

text \<open>
  C8: when the current year is after 2020, the output periods are in descending order of
  \<open>startYear\<close>; the period \<open>Modern / Unknown Date\<close> has the current year as its
  \<open>startYear\<close>, so it comes before the period \<open>2020s\<close>; no output period is empty. For
  images of the years 2021, 1995, 1923 and one without a year the labels are
  \<open>Modern / Unknown Date\<close>, \<open>2020s\<close>, \<open>1990s\<close>, \<open>1920s\<close>, in this order.
\<close>

theorem periods_order:
  assumes "2020 < now"
  shows "sorted_wrt (\<lambda>a b. startYear b \<le> startYear a) (periods now xs)
   \<and> (\<forall>p\<in>set (periods now xs). images p \<noteq> [])
   \<and> (\<forall>p\<in>set (periods now xs). label p = ''Modern / Unknown Date'' \<longrightarrow> startYear p = now)
   \<and> (\<forall>i j. i < length (periods now xs) \<and> j < length (periods now xs)
          \<and> label (periods now xs ! i) = ''Modern / Unknown Date''
          \<and> label (periods now xs ! j) = ''2020s'' \<longrightarrow> i < j)
   \<and> map label (periods now (map img_of_year [Some 2021, Some 1995, Some 1923, None]))
       = [''Modern / Unknown Date'', ''2020s'', ''1990s'', ''1920s'']"
proof (intro conjI allI impI ballI)
  show s: "sorted_wrt (\<lambda>a b. startYear b \<le> startYear a) (periods now xs)"
    by (rule sorted_periods)
  {
    fix i j
    assume a: "i < length (periods now xs) \<and> j < length (periods now xs)
          \<and> label (periods now xs ! i) = ''Modern / Unknown Date''
          \<and> label (periods now xs ! j) = ''2020s''"
    let ?P = "periods now xs"
    have si: "startYear (?P ! i) = now" using a by (intro unknown_start [of _ now xs]) simp_all
    have sj: "startYear (?P ! j) = 2020" using a by (intro start_of_2020s [of _ now xs]) simp_all
    have "i \<noteq> j" using a by auto
    moreover have "\<not> j < i"
    proof
      assume "j < i"
      with s a have "startYear (?P ! i) \<le> startYear (?P ! j)"
        by (simp add: sorted_wrt_iff_nth_less)
      with si sj assms show False by simp
    qed
    ultimately show "i < j" by simp
  }
  show "map label (periods now (map img_of_year [Some 2021, Some 1995, Some 1923, None]))
       = [''Modern / Unknown Date'', ''2020s'', ''1990s'', ''1920s'']"
  proof -
    from assms have "2021 \<le> now" by simp
    then show ?thesis by (simp add: eval_periods)
  qed
qed (simp_all add: period_nonempty unknown_start)

theorem periods_order_witness:
  "(2020::int) < 2026
   \<and> periods 2026 [img_of_year (Some 2021), img_of_year None]
       = [unknown_date 2026 [img_of_year None],
          \<lparr>label = ''2020s'', startYear = 2020, endYear = 2026,
           images = [img_of_year (Some 2021)]\<rparr>]
   \<and> sorted_wrt (\<lambda>a b. startYear b \<le> startYear a)
        (periods 2026 [img_of_year (Some 2021), img_of_year None])
   \<and> map label (periods 2026 (map img_of_year [Some 2021, Some 1995, Some 1923, None]))
       = [''Modern / Unknown Date'', ''2020s'', ''1990s'', ''1920s'']"
proof -
  let ?xs = "[img_of_year (Some 2021), img_of_year None]"
  have h: "(2020::int) < 2026" by simp
  have e: "periods 2026 ?xs
       = [unknown_date 2026 [img_of_year None],
          \<lparr>label = ''2020s'', startYear = 2020, endYear = 2026,
           images = [img_of_year (Some 2021)]\<rparr>]"
    by (simp add: eval_periods)
  from periods_order [OF h, of ?xs]
  have "sorted_wrt (\<lambda>a b. startYear b \<le> startYear a) (periods 2026 ?xs)"
    and "map label (periods 2026 (map img_of_year [Some 2021, Some 1995, Some 1923, None]))
       = [''Modern / Unknown Date'', ''2020s'', ''1990s'', ''1920s'']"
    by blast+
  with h e show ?thesis by blast
qed

text \<open>
  C10: an input image whose year is present and equal to 0 is in the period
  \<open>Modern / Unknown Date\<close>, whose images are the input images with an absent or zero year
  in their input order; it is in no other period, so not in the period \<open>Earlier\<close>, although
  the table lookup for the year 0 finds the entry \<open>Earlier\<close> with the range 0 to 1799.
\<close>

theorem year_zero_undated:
  assumes "r \<in> set xs" and "year r = Some 0"
  shows "unknown_date now (filter no_year xs) \<in> set (periods now xs)
   \<and> r \<in> set (images (unknown_date now (filter no_year xs)))
   \<and> (\<forall>p\<in>set (periods now xs). r \<in> set (images p) \<longrightarrow> label p = ''Modern / Unknown Date'')
   \<and> (\<forall>p\<in>set (periods now xs). label p = ''Earlier'' \<longrightarrow> r \<notin> set (images p))
   \<and> find_period now 0 = Some \<lparr>plabel = ''Earlier'', pstart = 0, pend = 1799\<rparr>"
proof -
  have n: "no_year r" using assms(2) by (simp add: no_year_def)
  with assms(1) have f: "r \<in> set (filter no_year xs)" by simp
  have "filter no_year xs \<noteq> []" using assms(1) n by (auto simp: filter_empty_conv)
  then have 1: "unknown_date now (filter no_year xs) \<in> set (periods now xs)"
    by (simp add: set_periods before_sort_def)
  have 2: "r \<in> set (images (unknown_date now (filter no_year xs)))"
    using f by (simp add: unknown_date_fields)
  have 3: "label p = ''Modern / Unknown Date''"
    if "p \<in> set (periods now xs)" "r \<in> set (images p)" for p
    using period_of_image [OF that] n by (simp add: unknown_date_fields)
  have 4: "\<forall>p\<in>set (periods now xs). label p = ''Earlier'' \<longrightarrow> r \<notin> set (images p)"
    using 3 by fastforce
  have 5: "find_period now 0 = Some \<lparr>plabel = ''Earlier'', pstart = 0, pend = 1799\<rparr>"
    by (simp add: find_period_def periodDefs_def)
  from 1 2 3 4 5 show ?thesis by blast
qed

theorem year_zero_undated_witness:
  "img_of_year (Some 0) \<in> set [img_of_year (Some 1700), img_of_year (Some 0)]
   \<and> year (img_of_year (Some 0)) = Some 0
   \<and> periods 2026 [img_of_year (Some 1700), img_of_year (Some 0)]
      = [unknown_date 2026 [img_of_year (Some 0)],
         \<lparr>label = ''Earlier'', startYear = 0, endYear = 1799,
          images = [img_of_year (Some 1700)]\<rparr>]
   \<and> unknown_date 2026 [img_of_year (Some 0)]
        \<in> set (periods 2026 [img_of_year (Some 1700), img_of_year (Some 0)])"
proof -
  let ?xs = "[img_of_year (Some 1700), img_of_year (Some 0)]"
  have h1: "img_of_year (Some 0) \<in> set ?xs" by simp
  have h2: "year (img_of_year (Some 0)) = Some 0" by (simp add: img_of_year_def mk_image_def)
  have e: "periods 2026 ?xs
      = [unknown_date 2026 [img_of_year (Some 0)],
         \<lparr>label = ''Earlier'', startYear = 0, endYear = 1799,
          images = [img_of_year (Some 1700)]\<rparr>]"
    by (simp add: eval_periods)
  have f: "filter no_year ?xs = [img_of_year (Some 0)]"
    by (simp add: no_year_def img_of_year_def mk_image_def)
  from year_zero_undated [OF h1 h2, of 2026]
  have "unknown_date 2026 [img_of_year (Some 0)] \<in> set (periods 2026 ?xs)"
    by (simp only: f)
  with h1 h2 e show ?thesis by blast
qed

end
